theory Spec2Isabelle
  imports Main "HOL-Library.Word"
begin

unbundle bit_operations_syntax

section \<open>Data model\<close>

text \<open>
  The engine of \<^verbatim>\<open>include/cthash/hasher.hpp\<close> is a template over a \<^verbatim>\<open>Config\<close>
  type. The configuration is a parameter of every function of the model. The word type of
  the state and of the round constants (\<^verbatim>\<open>state_item_t\<close>, \<^verbatim>\<open>staging_item_t\<close>) is the
  type parameter \<open>'w\<close> (\<open>sizeof\<close> is \<open>LENGTH('w) div 8\<close>), and \<^verbatim>\<open>Config::length_type\<close> is
  the type parameter \<open>'l\<close> of the hasher state. \<^verbatim>\<open>std::byte\<close> is an 8-bit word.

  The arrays of the source (\<^verbatim>\<open>block\<close>, \<^verbatim>\<open>hash\<close>, the schedule) are lists here. Their
  lengths, which the C++ types fix, and the facts about the constants of a configuration
  that keep every index of the source inside its array (a positive block size, a first
  part of the schedule of at least 16 words) are hypotheses of the theorems that need
  them; the configuration of the last definition section satisfies them all.
\<close>

type_synonym byte = "8 word"

record (overloaded) ('w::len) config =
  block_bits :: nat
  digest_length :: nat
  rounds_number :: nat
  initial_values :: "'w word list"
  constants :: "'w word list"
  staging_constants :: "nat list"
  compress_constants :: "nat list"
  length_size_bits :: nat
  values_for_output :: nat

record (overloaded) ('w::len, 'l::len) internal_hasher =
  hash :: "'w word list"
  total_length :: "'l word"
  block :: "byte list"
  block_used :: nat

definition block_size_bytes :: "'w::len config \<Rightarrow> nat" where
  "block_size_bytes cfg = block_bits cfg div 8"

definition staging_size :: "'w::len config \<Rightarrow> nat" where
  "staging_size cfg = length (constants cfg)"

section \<open>Byte/word codec\<close>

text \<open>
  \<^verbatim>\<open>unwrap_bigendian_number<T>::operator=(value)\<close> stores, for every \<^verbatim>\<open>Idx\<close> below
  \<^verbatim>\<open>bytes\<close>, the byte \<^verbatim>\<open>static_cast<std::byte>(value >> ((bits - 8) - 8 * Idx))\<close> at
  \<^verbatim>\<open>ref[Idx]\<close>. The model returns the \<^verbatim>\<open>bytes\<close> bytes written to the window.
\<close>

definition unwrap_bigendian_number :: "'a::len word \<Rightarrow> byte list" where
  "unwrap_bigendian_number val =
     (let bytes = LENGTH('a) div 8; bits = bytes * 8
      in map (\<lambda>Idx. ucast (drop_bit ((bits - 8) - 8 * Idx) val)) [0..<bytes])"

text \<open>
  \<^verbatim>\<open>cast_from_bytes<T>(in)\<close> is the fold of \<^verbatim>\<open>|\<close> over
  \<^verbatim>\<open>static_cast<T>(in[Idx]) << ((sizeof(T) - 1 - Idx) * 8)\<close>.
\<close>

definition cast_from_bytes :: "byte list \<Rightarrow> 'a::len word" where
  "cast_from_bytes inp =
     (let n = LENGTH('a) div 8
      in foldr (OR) (map (\<lambda>Idx. push_bit ((n - 1 - Idx) * 8) (ucast (inp ! Idx))) [0..<n]) 0)"

text \<open>
  The spec's words for the codec: a window of bytes, most significant first, read as a
  number, and a number written as \<open>n\<close> bytes, most significant first.
\<close>

definition bigendian_value :: "byte list \<Rightarrow> nat" where
  "bigendian_value bs = foldl (\<lambda>acc b. acc * 256 + unat b) 0 bs"

definition bigendian_bytes :: "nat \<Rightarrow> nat \<Rightarrow> byte list" where
  "bigendian_bytes n v = map (\<lambda>i. of_nat (v div 256 ^ (n - 1 - i))) [0..<n]"

section \<open>Message scheduler\<close>

definition first_part_size :: "'w::len config \<Rightarrow> nat" where
  "first_part_size cfg = block_size_bytes cfg div (LENGTH('w) div 8)"

text \<open>One iteration of the first loop of \<^verbatim>\<open>build_staging\<close>.\<close>

definition fill_staging :: "byte list \<Rightarrow> nat \<Rightarrow> 'w::len word list \<Rightarrow> 'w word list" where
  "fill_staging chunk i w =
     w[i := cast_from_bytes (take (LENGTH('w) div 8) (drop (i * (LENGTH('w) div 8)) chunk))]"

text \<open>One iteration of the second loop of \<^verbatim>\<open>build_staging\<close>.\<close>

definition expand_staging :: "'w::len config \<Rightarrow> nat \<Rightarrow> 'w word list \<Rightarrow> 'w word list" where
  "expand_staging cfg i w =
     (let s0 = word_rotr (staging_constants cfg ! 0) (w ! (i - 15))
               XOR word_rotr (staging_constants cfg ! 1) (w ! (i - 15))
               XOR drop_bit (staging_constants cfg ! 2) (w ! (i - 15));
          s1 = word_rotr (staging_constants cfg ! 3) (w ! (i - 2))
               XOR word_rotr (staging_constants cfg ! 4) (w ! (i - 2))
               XOR drop_bit (staging_constants cfg ! 5) (w ! (i - 2))
      in w[i := w ! (i - 16) + s0 + w ! (i - 7) + s1])"

text \<open>
  \<^verbatim>\<open>build_staging\<close>, from an array \<open>w0\<close> of \<^verbatim>\<open>staging_size\<close> words: the source declares
  \<^verbatim>\<open>w\<close> uninitialized, so its first content is a parameter here.
\<close>

definition build_staging_from :: "'w::len word list \<Rightarrow> 'w config \<Rightarrow> byte list \<Rightarrow> 'w word list" where
  "build_staging_from w0 cfg chunk =
     fold (expand_staging cfg) [first_part_size cfg..<staging_size cfg]
       (fold (fill_staging chunk) [0..<first_part_size cfg] w0)"

definition build_staging :: "'w::len config \<Rightarrow> byte list \<Rightarrow> 'w word list" where
  "build_staging cfg chunk = build_staging_from (replicate (staging_size cfg) 0) cfg chunk"

text \<open>
  The spec's words for an entry \<open>w[i]\<close> of the schedule beyond the first part, with \<open>c\<close>
  the \<^verbatim>\<open>staging_constants\<close>: \<^verbatim>\<open>w[i] = w[i-16] + s0 + w[i-7] + s1\<close>.
\<close>

definition schedule_word :: "nat list \<Rightarrow> 'w::len word list \<Rightarrow> nat \<Rightarrow> 'w word" where
  "schedule_word c w i =
     (let s0 = word_rotr (c ! 0) (w ! (i - 15)) XOR word_rotr (c ! 1) (w ! (i - 15))
               XOR drop_bit (c ! 2) (w ! (i - 15));
          s1 = word_rotr (c ! 3) (w ! (i - 2)) XOR word_rotr (c ! 4) (w ! (i - 2))
               XOR drop_bit (c ! 5) (w ! (i - 2))
      in w ! (i - 16) + s0 + w ! (i - 7) + s1)"

section \<open>Compression round\<close>

text \<open>
  One iteration of the loop of \<^verbatim>\<open>rounds\<close>. The names \<^verbatim>\<open>a\<close> .. \<^verbatim>\<open>h\<close> are references to
  \<^verbatim>\<open>wvar[0]\<close> .. \<^verbatim>\<open>wvar[7]\<close>: the eight assignments are eight updates of the array, in
  the order of the source.
\<close>

definition round_step :: "'w::len config \<Rightarrow> 'w word list \<Rightarrow> nat \<Rightarrow> 'w word list \<Rightarrow> 'w word list" where
  "round_step cfg w i wvar =
     (let S1 = word_rotr (compress_constants cfg ! 0) (wvar ! 4)
               XOR word_rotr (compress_constants cfg ! 1) (wvar ! 4)
               XOR word_rotr (compress_constants cfg ! 2) (wvar ! 4);
          choice = (wvar ! 4 AND wvar ! 5) XOR (NOT (wvar ! 4) AND wvar ! 6);
          temp1 = wvar ! 7 + S1 + choice + constants cfg ! i + w ! i;
          S0 = word_rotr (compress_constants cfg ! 3) (wvar ! 0)
               XOR word_rotr (compress_constants cfg ! 4) (wvar ! 0)
               XOR word_rotr (compress_constants cfg ! 5) (wvar ! 0);
          majority = (wvar ! 0 AND wvar ! 1) XOR (wvar ! 0 AND wvar ! 2) XOR (wvar ! 1 AND wvar ! 2);
          temp2 = S0 + majority;
          wvar = wvar[7 := wvar ! 6];
          wvar = wvar[6 := wvar ! 5];
          wvar = wvar[5 := wvar ! 4];
          wvar = wvar[4 := wvar ! 3 + temp1];
          wvar = wvar[3 := wvar ! 2];
          wvar = wvar[2 := wvar ! 1];
          wvar = wvar[1 := wvar ! 0];
          wvar = wvar[0 := temp1 + temp2]
      in wvar)"

definition rounds :: "'w::len config \<Rightarrow> 'w word list \<Rightarrow> 'w word list \<Rightarrow> 'w word list" where
  "rounds cfg w state =
     (let wvar = fold (round_step cfg w) [0..<rounds_number cfg] state
      in fold (\<lambda>i st. st[i := st ! i + wvar ! i]) [0..<length state] state)"

text \<open>
  The spec's words for one round, on the eight working variables:
  \<^verbatim>\<open>h,g,f,e,d,c,b,a = g,f,e,(d+temp1),c,b,a,(temp1+temp2)\<close>, with \<open>k\<close> the
  \<^verbatim>\<open>compress_constants\<close>, \<open>ki\<close> the round constant and \<open>wi\<close> the schedule word.
\<close>

definition round_spec :: "nat list \<Rightarrow> 'w::len word \<Rightarrow> 'w word \<Rightarrow> 'w word list \<Rightarrow> 'w word list" where
  "round_spec k ki wi v =
     (case v of [a, b, c, d, e, f, g, h] \<Rightarrow>
        (let S1 = word_rotr (k ! 0) e XOR word_rotr (k ! 1) e XOR word_rotr (k ! 2) e;
             choice = (e AND f) XOR (NOT e AND g);
             temp1 = h + S1 + choice + ki + wi;
             S0 = word_rotr (k ! 3) a XOR word_rotr (k ! 4) a XOR word_rotr (k ! 5) a;
             majority = (a AND b) XOR (a AND c) XOR (b AND c);
             temp2 = S0 + majority
         in [temp1 + temp2, a, b, c, d + temp1, e, f, g])
      | _ \<Rightarrow> v)"

section \<open>Buffer accumulator\<close>

text \<open>
  The constructor sets \<^verbatim>\<open>hash\<close>, \<^verbatim>\<open>total_length\<close> and \<^verbatim>\<open>block_used\<close> and leaves the
  array \<^verbatim>\<open>block\<close> as it is: its first content \<open>blk\<close> is a parameter of the model.
\<close>

definition hasher_new :: "'w::len config \<Rightarrow> byte list \<Rightarrow> ('w, 'l::len) internal_hasher" where
  "hasher_new cfg blk = \<lparr>hash = initial_values cfg, total_length = 0, block = blk, block_used = 0\<rparr>"

text \<open>
  The body of the loop of \<^verbatim>\<open>update_to_buffer_and_process\<close> up to the test: the copy of
  \<^verbatim>\<open>to_copy\<close> into the free space of the block and the addition to \<^verbatim>\<open>total_length\<close>.
  The result is the state and \<^verbatim>\<open>to_copy.size()\<close>. The span \<^verbatim>\<open>subspan(block_used)\<close> exists
  in the source only for \<^verbatim>\<open>block_used\<close> up to \<^verbatim>\<open>block_size_bytes\<close>; every state reached
  from the constructor is so, as the invariant theorem below shows.
\<close>

definition copy_to_block :: "'w::len config \<Rightarrow> ('w, 'l::len) internal_hasher \<Rightarrow> byte list
    \<Rightarrow> ('w, 'l) internal_hasher \<times> nat" where
  "copy_to_block cfg s inp =
     (let remaining_free_space = block_size_bytes cfg - block_used s;
          to_copy = take (min (length inp) remaining_free_space) inp;
          blk = take (block_used s) (block s) @ to_copy
                @ drop (block_used s + length to_copy) (block s)
      in (s\<lparr>block := blk, total_length := total_length s + of_nat (length to_copy)\<rparr>,
          length to_copy))"

text \<open>The two calls made on a full block: \<^verbatim>\<open>build_staging(block)\<close>, then \<^verbatim>\<open>rounds(w, hash)\<close>.\<close>

definition process_block :: "'w::len config \<Rightarrow> ('w, 'l::len) internal_hasher \<Rightarrow> ('w, 'l) internal_hasher" where
  "process_block cfg s = s\<lparr>hash := rounds cfg (build_staging cfg (block s)) (hash s)\<rparr>"

text \<open>
  The loop \<^verbatim>\<open>for (;;)\<close> of \<^verbatim>\<open>update_to_buffer_and_process\<close>. It has no bound in the
  source, so the model is a partial function: \<open>None\<close> is a loop that never returns. The
  iterator \<^verbatim>\<open>it\<close> differs from the end of the free space exactly when fewer bytes were
  copied than were free; the second assertion of the source restates the test of the
  branch it stands in.
\<close>

partial_function (option) update_to_buffer_and_process ::
    "'w::len config \<Rightarrow> ('w, 'l::len) internal_hasher \<Rightarrow> byte list \<Rightarrow> ('w, 'l) internal_hasher option" where
  "update_to_buffer_and_process cfg s inp =
     (case copy_to_block cfg s inp of (s1, n) \<Rightarrow>
        if n \<noteq> block_size_bytes cfg - block_used s
        then Some (s1\<lparr>block_used := block_used s1 + n\<rparr>)
        else update_to_buffer_and_process cfg (process_block cfg (s1\<lparr>block_used := 0\<rparr>)) (drop n inp))"

declare update_to_buffer_and_process.simps [code]

text \<open>\<^verbatim>\<open>hasher::update\<close> on a byte span, and on a string literal (an array of \<open>N\<close> chars).\<close>

definition update :: "'w::len config \<Rightarrow> ('w, 'l::len) internal_hasher \<Rightarrow> byte list \<Rightarrow> ('w, 'l) internal_hasher option" where
  "update cfg s input = update_to_buffer_and_process cfg s input"

definition update_string_literal :: "'w::len config \<Rightarrow> ('w, 'l::len) internal_hasher \<Rightarrow> byte list
    \<Rightarrow> ('w, 'l) internal_hasher option" where
  "update_string_literal cfg s lit = update_to_buffer_and_process cfg s (take (length lit - 1) lit)"

text \<open>A sequence of \<^verbatim>\<open>update\<close> calls, one per element of the list.\<close>

fun updates :: "'w::len config \<Rightarrow> ('w, 'l::len) internal_hasher \<Rightarrow> byte list list \<Rightarrow> ('w, 'l) internal_hasher option" where
  "updates cfg s [] = Some s"
| "updates cfg s (c # cs) = (case update cfg s c of None \<Rightarrow> None | Some s' \<Rightarrow> updates cfg s' cs)"

definition size_hasher :: "('w::len, 'l::len) internal_hasher \<Rightarrow> 'l word" where
  "size_hasher s = total_length s"

section \<open>Finalizer and result writer\<close>

text \<open>The block after the terminator byte and the zero fill of \<^verbatim>\<open>finalize_buffer\<close>.\<close>

definition pad_block :: "'w::len config \<Rightarrow> ('w, 'l::len) internal_hasher \<Rightarrow> byte list" where
  "pad_block cfg s =
     (let blk = (block s)[block_used s := 0x80]
      in take (block_used s + 1) blk @ replicate (block_size_bytes cfg - (block_used s + 1)) 0)"

text \<open>
  The assignment of \<^verbatim>\<open>total_length * 8\<close> through \<^verbatim>\<open>unwrap_bigendian_number\<close> to the last
  \<^verbatim>\<open>sizeof(length_t)\<close> bytes of the block.
\<close>

definition put_length :: "'w::len config \<Rightarrow> ('w, 'l::len) internal_hasher \<Rightarrow> byte list \<Rightarrow> byte list" where
  "put_length cfg s blk =
     take (block_size_bytes cfg - LENGTH('l) div 8) blk @ unwrap_bigendian_number (total_length s * 8)"

text \<open>
  \<^verbatim>\<open>finalize_buffer\<close>. The assertion \<^verbatim>\<open>assert(block_used < block.size())\<close> at its head is
  a branch of the model: \<open>None\<close> is the failed assertion.
\<close>

definition finalize_buffer :: "'w::len config \<Rightarrow> ('w, 'l::len) internal_hasher \<Rightarrow> ('w, 'l) internal_hasher option" where
  "finalize_buffer cfg s =
     (if block_used s < block_size_bytes cfg
      then (let free_space_size = block_size_bytes cfg - block_used s;
                s = s\<lparr>block := pad_block cfg s\<rparr>;
                s = (if free_space_size < 1 + length_size_bits cfg div 8
                     then (process_block cfg s)\<lparr>block := replicate (block_size_bytes cfg) 0\<rparr>
                     else s);
                s = s\<lparr>block := put_length cfg s (block s)\<rparr>
            in Some (process_block cfg s))
      else None)"

text \<open>
  The blocks that \<^verbatim>\<open>finalize_buffer\<close> hands to \<^verbatim>\<open>build_staging\<close>, in order: the same
  control flow, recording the argument of each call.
\<close>

definition finalize_blocks :: "'w::len config \<Rightarrow> ('w, 'l::len) internal_hasher \<Rightarrow> byte list list" where
  "finalize_blocks cfg s =
     (let free_space_size = block_size_bytes cfg - block_used s
      in if free_space_size < 1 + length_size_bits cfg div 8
         then [pad_block cfg s, put_length cfg s (replicate (block_size_bytes cfg) 0)]
         else [put_length cfg s (pad_block cfg s)])"

text \<open>\<^verbatim>\<open>write_result_into\<close>: each word is written to its window of the buffer \<open>out\<close>.\<close>

definition write_result_into :: "'w::len config \<Rightarrow> ('w, 'l::len) internal_hasher \<Rightarrow> byte list \<Rightarrow> byte list" where
  "write_result_into cfg s out =
     fold (\<lambda>i out. take (i * (LENGTH('w) div 8)) out @ unwrap_bigendian_number (hash s ! i)
                    @ drop (i * (LENGTH('w) div 8) + LENGTH('w) div 8) out)
       [0..<values_for_output cfg] out"

text \<open>\<^verbatim>\<open>hasher::final(digest)\<close>: the state after the call and the digest buffer.\<close>

definition final :: "'w::len config \<Rightarrow> ('w, 'l::len) internal_hasher \<Rightarrow> byte list
    \<Rightarrow> (('w, 'l) internal_hasher \<times> byte list) option" where
  "final cfg s digest =
     (case finalize_buffer cfg s of None \<Rightarrow> None
      | Some s' \<Rightarrow> Some (s', write_result_into cfg s' digest))"

section \<open>A configuration\<close>

text \<open>
  Modelled from the spec: the per-variant configuration table, which is not part of
  \<^verbatim>\<open>hasher.hpp\<close>. These are the SHA-256 values of the published SHA-2 specification,
  to which the spec says the table conforms.
\<close>

definition sha256_config :: "32 config" where
  "sha256_config = \<lparr>
     block_bits = 512,
     digest_length = 32,
     rounds_number = 64,
     initial_values = [1779033703, 3144134277, 1013904242, 2773480762,
                       1359893119, 2600822924, 528734635, 1541459225],
     constants = [
       1116352408, 1899447441, 3049323471, 3921009573, 961987163, 1508970993, 2453635748, 2870763221,
       3624381080, 310598401, 607225278, 1426881987, 1925078388, 2162078206, 2614888103, 3248222580,
       3835390401, 4022224774, 264347078, 604807628, 770255983, 1249150122, 1555081692, 1996064986,
       2554220882, 2821834349, 2952996808, 3210313671, 3336571891, 3584528711, 113926993, 338241895,
       666307205, 773529912, 1294757372, 1396182291, 1695183700, 1986661051, 2177026350, 2456956037,
       2730485921, 2820302411, 3259730800, 3345764771, 3516065817, 3600352804, 4094571909, 275423344,
       430227734, 506948616, 659060556, 883997877, 958139571, 1322822218, 1537002063, 1747873779,
       1955562222, 2024104815, 2227730452, 2361852424, 2428436474, 2756734187, 3204031479, 3329325298],
     staging_constants = [7, 18, 3, 17, 19, 10],
     compress_constants = [6, 11, 25, 2, 13, 22],
     length_size_bits = 64,
     values_for_output = 8\<rparr>"

text \<open>
  A hasher of that configuration with \<open>n mod 64\<close> bytes in its buffer and \<open>n\<close> bytes
  counted, at which the theorems below are instantiated.
\<close>

definition example_hasher :: "nat \<Rightarrow> (32, 64) internal_hasher" where
  "example_hasher n = \<lparr>hash = initial_values sha256_config, total_length = of_nat n,
     block = replicate 64 0x61, block_used = n mod 64\<rparr>"

section \<open>Theorems\<close>

lemma bit_foldr_or:
  "bit (foldr (OR) (map f xs) (0 :: 'a::len word)) n \<longleftrightarrow> (\<exists>x\<in>set xs. bit (f x) n)"
  by (induction xs) (auto simp: bit_or_iff)

subsection \<open>Byte/word codec\<close>

lemma bit_be_byte:
  "bit (push_bit k (ucast (ucast (drop_bit k (v::'a::len word)) :: byte)) :: 'a word) n
     \<longleftrightarrow> k \<le> n \<and> n < k + 8 \<and> bit v n"
  by (auto simp: bit_push_bit_iff bit_ucast_iff bit_drop_bit_eq bit_word_ucast_iff dest: bit_imp_le_length)

lemma cast_unwrap:
  assumes "8 dvd LENGTH('a::len)"
  shows "cast_from_bytes (unwrap_bigendian_number (v::'a word)) = v"
proof (rule bit_word_eqI)
  fix n assume n: "n < LENGTH('a)"
  define B where "B = LENGTH('a) div 8"
  have L: "LENGTH('a) = B * 8" using assms by (auto simp: B_def)
  have shift: "B * 8 - 8 - 8 * i = (B - 1 - i) * 8" for i
    by (simp add: algebra_simps)
  have "bit (cast_from_bytes (unwrap_bigendian_number v) :: 'a word) n
      \<longleftrightarrow> (\<exists>i\<in>set [0..<B]. (B - 1 - i) * 8 \<le> n \<and> n < (B - 1 - i) * 8 + 8 \<and> bit v n)"
    unfolding cast_from_bytes_def unwrap_bigendian_number_def Let_def bit_foldr_or B_def[symmetric]
  proof (intro bex_cong refl)
    fix i assume "i \<in> set [0..<B]"
    then have i: "i < B" by simp
    then have "map (\<lambda>Idx. ucast (drop_bit (B * 8 - 8 - 8 * Idx) v) :: byte) [0..<B] ! i
        = ucast (drop_bit ((B - 1 - i) * 8) v)"
      by (simp only: shift nth_map length_upt diff_zero nth_upt add_0)
    then show "bit (push_bit ((B - 1 - i) * 8)
             (ucast (map (\<lambda>Idx. ucast (drop_bit (B * 8 - 8 - 8 * Idx) v) :: byte) [0..<B] ! i)) :: 'a word) n
        \<longleftrightarrow> (B - 1 - i) * 8 \<le> n \<and> n < (B - 1 - i) * 8 + 8 \<and> bit v n"
      by (simp only: bit_be_byte)
  qed
  also have "\<dots> \<longleftrightarrow> bit v n"
  proof
    assume "bit v n"
    have "n div 8 < B" using n L by (simp add: less_mult_imp_div_less)
    then have "B - 1 - (B - 1 - n div 8) = n div 8" by simp
    moreover have "B - 1 - n div 8 \<in> set [0..<B]" using \<open>n div 8 < B\<close> by simp
    moreover have "n div 8 * 8 \<le> n \<and> n < n div 8 * 8 + 8"
      by presburger
    ultimately show "\<exists>i\<in>set [0..<B]. (B - 1 - i) * 8 \<le> n \<and> n < (B - 1 - i) * 8 + 8 \<and> bit v n"
      using \<open>bit v n\<close> by metis
  qed auto
  finally show "bit (cast_from_bytes (unwrap_bigendian_number v) :: 'a word) n \<longleftrightarrow> bit v n" .
qed

lemma length_unwrap_bigendian_number [simp]:
  "length (unwrap_bigendian_number (v::'a::len word)) = LENGTH('a) div 8"
  by (simp add: unwrap_bigendian_number_def Let_def)

text \<open>
  Claim C7. For the two supported word widths, 32 and 64 bits, and every value \<open>v\<close> of
  that width, the assignment through \<^verbatim>\<open>unwrap_bigendian_number\<close> writes a window of 4
  (of 8) bytes, and \<^verbatim>\<open>cast_from_bytes\<close> of that window is \<open>v\<close> again.
\<close>

theorem codec_round_trip:
  "cast_from_bytes (unwrap_bigendian_number (v32 :: 32 word)) = v32
   \<and> length (unwrap_bigendian_number v32) = 4
   \<and> cast_from_bytes (unwrap_bigendian_number (v64 :: 64 word)) = v64
   \<and> length (unwrap_bigendian_number v64) = 8"
  by (simp add: cast_unwrap)

subsection \<open>Finalizer: the result in closed form\<close>

lemma finalize_buffer_Some:
  assumes "block_used s < block_size_bytes cfg"
  shows "finalize_buffer cfg s =
     Some (s\<lparr>hash := fold (\<lambda>b h. rounds cfg (build_staging cfg b) h) (finalize_blocks cfg s) (hash s),
             block := last (finalize_blocks cfg s)\<rparr>)"
  using assms
  by (simp add: finalize_buffer_def finalize_blocks_def process_block_def put_length_def Let_def)

lemma finalize_buffer_None:
  "finalize_buffer cfg s = None \<longleftrightarrow> \<not> block_used s < block_size_bytes cfg"
  by (simp add: finalize_buffer_def Let_def)

subsection \<open>Buffer accumulator\<close>


lemma update_short:
  assumes "length inp < block_size_bytes cfg - block_used s"
  shows "update_to_buffer_and_process cfg s inp =
     Some (s\<lparr>block := take (block_used s) (block s) @ inp @ drop (block_used s + length inp) (block s),
             total_length := total_length s + of_nat (length inp),
             block_used := block_used s + length inp\<rparr>)"
  using assms
  by (subst update_to_buffer_and_process.simps) (simp add: copy_to_block_def Let_def min_def)

lemma update_full:
  assumes "block_size_bytes cfg - block_used s \<le> length inp"
  shows "update_to_buffer_and_process cfg s inp =
     update_to_buffer_and_process cfg
       (process_block cfg
          (s\<lparr>block := take (block_used s) (block s) @ take (block_size_bytes cfg - block_used s) inp
                       @ drop (block_used s + (block_size_bytes cfg - block_used s)) (block s),
             total_length := total_length s + of_nat (block_size_bytes cfg - block_used s),
             block_used := 0\<rparr>))
       (drop (block_size_bytes cfg - block_used s) inp)"
  using assms
  by (subst update_to_buffer_and_process.simps) (simp add: copy_to_block_def Let_def min_def)

lemma update_returns:
  assumes "0 < block_size_bytes cfg" "block_used s < block_size_bytes cfg"
  shows "\<exists>s'. update_to_buffer_and_process cfg s inp = Some s'
            \<and> block_used s' < block_size_bytes cfg
            \<and> total_length s' = total_length s + of_nat (length inp)
            \<and> (length (block s) = block_size_bytes cfg \<longrightarrow> length (block s') = block_size_bytes cfg)"
  using assms
proof (induction "length inp" arbitrary: s inp rule: less_induct)
  case less
  let ?B = "block_size_bytes cfg"
  let ?free = "?B - block_used s"
  show ?case
  proof (cases "length inp < ?free")
    case True
    then show ?thesis by (simp add: update_short)
  next
    case False
    define s1 where "s1 = process_block cfg
          (s\<lparr>block := take (block_used s) (block s) @ take ?free inp
                       @ drop (block_used s + ?free) (block s),
             total_length := total_length s + of_nat ?free,
             block_used := 0\<rparr>)"
    have step: "update_to_buffer_and_process cfg s inp = update_to_buffer_and_process cfg s1 (drop ?free inp)"
      using False unfolding s1_def by (intro update_full) simp
    have free: "0 < ?free" "?free \<le> length inp" using less.prems False by simp_all
    then have shorter: "length (drop ?free inp) < length inp" by simp
    have used1: "block_used s1 = 0" and total1: "total_length s1 = total_length s + of_nat ?free"
      by (simp_all add: s1_def process_block_def)
    have len1: "length (block s) = ?B \<Longrightarrow> length (block s1) = ?B"
      using less.prems free by (simp add: s1_def process_block_def)
    from less.hyps[OF shorter less.prems(1), of s1] used1 less.prems(1)
    obtain s' where s': "update_to_buffer_and_process cfg s1 (drop ?free inp) = Some s'"
        "block_used s' < ?B" "total_length s' = total_length s1 + of_nat (length (drop ?free inp))"
        "length (block s1) = ?B \<longrightarrow> length (block s') = ?B"
      by auto
    have "total_length s' = total_length s + of_nat (length inp)"
      using s'(3) total1 free(2) by (simp add: add.assoc flip: of_nat_add)
    with s' step len1 show ?thesis by simp
  qed
qed

lemma update_append:
  assumes "block_used s < block_size_bytes cfg" "length (block s) = block_size_bytes cfg"
  shows "update_to_buffer_and_process cfg s (a @ b) =
     (case update_to_buffer_and_process cfg s a of None \<Rightarrow> None
      | Some s' \<Rightarrow> update_to_buffer_and_process cfg s' b)"
  using assms
proof (induction "length a" arbitrary: s a rule: less_induct)
  case less
  let ?B = "block_size_bytes cfg"
  let ?free = "?B - block_used s"
  show ?case
  proof (cases "length a < ?free")
    case True
    let ?s1 = "s\<lparr>block := take (block_used s) (block s) @ a @ drop (block_used s + length a) (block s),
             total_length := total_length s + of_nat (length a),
             block_used := block_used s + length a\<rparr>"
    have a: "update_to_buffer_and_process cfg s a = Some ?s1"
      using True by (rule update_short)
    show ?thesis
    proof (cases "length b < ?free - length a")
      case short: True
      then have "length (a @ b) < ?free" "length b < ?B - block_used ?s1" using True by simp_all
      then show ?thesis using less.prems True
        by (simp add: a update_short ac_simps)
    next
      case full: False
      then have 1: "?free \<le> length (a @ b)" and 2: "?B - block_used ?s1 \<le> length b" by simp_all
      show ?thesis
        unfolding a option.case update_full[OF 1] update_full[OF 2]
        using less.prems True full
        by (simp add: ac_simps)
    qed
  next
    case False
    then have 1: "?free \<le> length (a @ b)" and 2: "?free \<le> length a" by simp_all
    define s1 where "s1 = process_block cfg
          (s\<lparr>block := take (block_used s) (block s) @ take ?free a
                       @ drop (block_used s + ?free) (block s),
             total_length := total_length s + of_nat ?free,
             block_used := 0\<rparr>)"
    have free: "0 < ?free" using less.prems by simp
    then have shorter: "length (drop ?free a) < length a" using 2 by simp
    have inv1: "block_used s1 < ?B" "length (block s1) = ?B"
      using less.prems 2 by (simp_all add: s1_def process_block_def)
    have "update_to_buffer_and_process cfg s (a @ b)
        = update_to_buffer_and_process cfg s1 (drop ?free a @ b)"
      unfolding update_full[OF 1] s1_def using 2 by simp
    also have "\<dots> = (case update_to_buffer_and_process cfg s1 (drop ?free a) of None \<Rightarrow> None
      | Some s' \<Rightarrow> update_to_buffer_and_process cfg s' b)"
      by (rule less.hyps[OF shorter inv1])
    also have "update_to_buffer_and_process cfg s1 (drop ?free a) = update_to_buffer_and_process cfg s a"
      unfolding update_full[OF 2] s1_def ..
    finally show ?thesis .
  qed
qed


lemma update_empty:
  assumes "block_used s < block_size_bytes cfg" "length (block s) = block_size_bytes cfg"
  shows "update_to_buffer_and_process cfg s [] = Some s"
  using assms by (simp add: update_short)

lemma update_exact:
  assumes "0 < block_size_bytes cfg" "length inp = block_size_bytes cfg - block_used s"
  shows "update_to_buffer_and_process cfg s inp =
     Some (process_block cfg
          (s\<lparr>block := take (block_used s) (block s) @ inp @ drop (block_used s + length inp) (block s),
             total_length := total_length s + of_nat (length inp),
             block_used := 0\<rparr>))"
proof -
  have "block_size_bytes cfg - block_used s \<le> length inp" using assms by simp
  from update_full[OF this] show ?thesis
    using assms by (simp add: update_short process_block_def)
qed

lemma updates_returns:
  assumes "0 < block_size_bytes cfg" "block_used s < block_size_bytes cfg"
  shows "\<exists>s'. updates cfg s chunks = Some s'
            \<and> block_used s' < block_size_bytes cfg
            \<and> total_length s' = total_length s + of_nat (sum_list (map length chunks))
            \<and> (length (block s) = block_size_bytes cfg \<longrightarrow> length (block s') = block_size_bytes cfg)"
  using assms
proof (induction chunks arbitrary: s)
  case Nil
  then show ?case by simp
next
  case (Cons c cs)
  from update_returns[OF Cons.prems, of c] obtain s1 where s1:
    "update_to_buffer_and_process cfg s c = Some s1" "block_used s1 < block_size_bytes cfg"
    "total_length s1 = total_length s + of_nat (length c)"
    "length (block s) = block_size_bytes cfg \<longrightarrow> length (block s1) = block_size_bytes cfg"
    by blast
  from Cons.IH[OF Cons.prems(1) s1(2)] obtain s' where s':
    "updates cfg s1 cs = Some s'" "block_used s' < block_size_bytes cfg"
    "total_length s' = total_length s1 + of_nat (sum_list (map length cs))"
    "length (block s1) = block_size_bytes cfg \<longrightarrow> length (block s') = block_size_bytes cfg"
    by blast
  show ?case
    using s1 s' by (simp add: update_def add.assoc)
qed

lemma updates_concat:
  assumes "0 < block_size_bytes cfg" "block_used s < block_size_bytes cfg"
    "length (block s) = block_size_bytes cfg"
  shows "updates cfg s chunks = update_to_buffer_and_process cfg s (concat chunks)"
  using assms
proof (induction chunks arbitrary: s)
  case Nil
  then show ?case by (simp add: update_empty)
next
  case (Cons c cs)
  from update_returns[OF Cons.prems(1,2), of c] Cons.prems(3) obtain s1 where s1:
    "update_to_buffer_and_process cfg s c = Some s1" "block_used s1 < block_size_bytes cfg"
    "length (block s1) = block_size_bytes cfg"
    by blast
  have "updates cfg s (c # cs) = updates cfg s1 cs"
    by (simp add: update_def s1(1))
  also have "\<dots> = update_to_buffer_and_process cfg s1 (concat cs)"
    by (rule Cons.IH[OF Cons.prems(1) s1(2,3)])
  also have "\<dots> = update_to_buffer_and_process cfg s (c @ concat cs)"
    by (simp add: update_append[OF Cons.prems(2,3)] s1(1))
  finally show ?case by simp
qed


text \<open>
  Claim C2. For a freshly constructed hasher and every list of inputs, the \<^verbatim>\<open>update\<close>
  calls return and \<^verbatim>\<open>size()\<close>, the field \<^verbatim>\<open>total_length\<close>, is the sum of the lengths of
  the inputs as a value of \<^verbatim>\<open>length_type\<close>; it is that sum as a number whenever the sum is
  representable in \<^verbatim>\<open>length_type\<close>, which the spec requires of that type.
\<close>

theorem total_length_sum:
  fixes cfg :: "'w::len config"
  assumes "0 < block_size_bytes cfg"
  shows "\<exists>s'. updates cfg (hasher_new cfg blk :: ('w, 'l::len) internal_hasher) chunks = Some s'
            \<and> size_hasher s' = total_length s'
            \<and> total_length s' = of_nat (sum_list (map length chunks))
            \<and> (sum_list (map length chunks) < 2 ^ LENGTH('l)
                 \<longrightarrow> unat (total_length s') = sum_list (map length chunks))"
proof -
  let ?h = "hasher_new cfg blk :: ('w, 'l) internal_hasher"
  have "block_used ?h < block_size_bytes cfg" "total_length ?h = 0"
    using assms by (simp_all add: hasher_new_def)
  with updates_returns[OF assms(1) this(1), of chunks] show ?thesis
    by (auto simp: size_hasher_def unat_of_nat)
qed

theorem total_length_sum_witness:
  "0 < block_size_bytes sha256_config
   \<and> (\<exists>s'. updates sha256_config (hasher_new sha256_config (replicate 64 0) :: (32, 64) internal_hasher)
               [replicate 30 0x61, replicate 70 0x61, replicate 28 0x61] = Some s'
          \<and> unat (total_length s') = 128)"
proof -
  have 1: "0 < block_size_bytes sha256_config"
    by (simp add: block_size_bytes_def sha256_config_def)
  from total_length_sum[OF 1, where 'l = 64 and blk = "replicate 64 0"
      and chunks = "[replicate 30 0x61, replicate 70 0x61, replicate 28 0x61]"]
  obtain s' where "updates sha256_config (hasher_new sha256_config (replicate 64 0) :: (32, 64) internal_hasher)
               [replicate 30 0x61, replicate 70 0x61, replicate 28 0x61] = Some s'"
      "sum_list (map length [replicate 30 (0x61::byte), replicate 70 0x61, replicate 28 0x61]) < 2 ^ 64
         \<longrightarrow> unat (total_length s')
           = sum_list (map length [replicate 30 (0x61::byte), replicate 70 0x61, replicate 28 0x61])"
    by auto
  with 1 show ?thesis by simp
qed

text \<open>
  Claim C8. With a positive block size, \<^verbatim>\<open>block_used < block_size_bytes\<close> holds after
  construction and after every sequence of \<^verbatim>\<open>update\<close> calls, each of which returns; and an
  \<^verbatim>\<open>update\<close> whose input exactly fills the block returns with \<^verbatim>\<open>block_used\<close> 0.
\<close>

theorem block_used_invariant:
  fixes cfg :: "'w::len config"
  assumes "0 < block_size_bytes cfg"
  shows "block_used (hasher_new cfg blk :: ('w, 'l::len) internal_hasher) < block_size_bytes cfg
       \<and> (\<exists>s'. updates cfg (hasher_new cfg blk :: ('w, 'l) internal_hasher) chunks = Some s'
             \<and> block_used s' < block_size_bytes cfg
             \<and> (\<forall>inp. length inp = block_size_bytes cfg - block_used s'
                   \<longrightarrow> (\<exists>s''. update cfg s' inp = Some s'' \<and> block_used s'' = 0)))"
proof -
  let ?h = "hasher_new cfg blk :: ('w, 'l) internal_hasher"
  have h: "block_used ?h < block_size_bytes cfg"
    using assms by (simp add: hasher_new_def)
  from updates_returns[OF assms(1) h, of chunks] obtain s' where
    s': "updates cfg ?h chunks = Some s'" "block_used s' < block_size_bytes cfg"
    by blast
  have "\<exists>s''. update cfg s' inp = Some s'' \<and> block_used s'' = 0"
    if "length inp = block_size_bytes cfg - block_used s'" for inp
    unfolding update_def update_exact[OF assms(1) that] by (simp add: process_block_def)
  with h s' show ?thesis by blast
qed

theorem block_used_invariant_witness:
  "0 < block_size_bytes sha256_config
   \<and> block_used (hasher_new sha256_config (replicate 64 0) :: (32, 64) internal_hasher) < 64
   \<and> (\<exists>s'. updates sha256_config (hasher_new sha256_config (replicate 64 0) :: (32, 64) internal_hasher)
               [replicate 30 0x61, replicate 34 0x61] = Some s'
          \<and> block_used s' < 64)"
proof -
  have 1: "0 < block_size_bytes sha256_config" and 2: "block_size_bytes sha256_config = 64"
    by (simp_all add: block_size_bytes_def sha256_config_def)
  from block_used_invariant[OF 1, where 'l = 64 and blk = "replicate 64 0"
      and chunks = "[replicate 30 0x61, replicate 34 0x61]"]
  show ?thesis unfolding 2 by auto
qed

text \<open>
  Claim C9. \<^verbatim>\<open>update\<close> on a string literal, an array \<open>bs @ [c]\<close> whose last element
  \<open>c\<close> is the terminator, is \<^verbatim>\<open>update\<close> on the bytes \<open>bs\<close>: it returns, and
  \<^verbatim>\<open>total_length\<close> grows by the array length minus one. Hashing the literal \<^verbatim>\<open>"abc"\<close> is
  hashing the three bytes \<^verbatim>\<open>'a'\<close>, \<^verbatim>\<open>'b'\<close>, \<^verbatim>\<open>'c'\<close>.
\<close>

theorem string_literal_excludes_terminator:
  fixes cfg :: "'w::len config" and s :: "('w, 'l::len) internal_hasher"
  assumes "0 < block_size_bytes cfg" "block_used s < block_size_bytes cfg"
  shows "update_string_literal cfg s (bs @ [c]) = update cfg s bs
    \<and> (\<exists>s'. update_string_literal cfg s (bs @ [c]) = Some s'
          \<and> total_length s' = total_length s + of_nat (length (bs @ [c]) - 1))
    \<and> update_string_literal cfg s [0x61, 0x62, 0x63, 0] = update cfg s [0x61, 0x62, 0x63]"
  using update_returns[OF assms, of bs]
  by (auto simp: update_string_literal_def update_def)

theorem string_literal_excludes_terminator_witness:
  "0 < block_size_bytes sha256_config \<and> block_used (example_hasher 5) < block_size_bytes sha256_config
   \<and> update_string_literal sha256_config (example_hasher 5) ([0x61, 0x62, 0x63] @ [0])
       = update sha256_config (example_hasher 5) [0x61, 0x62, 0x63]
   \<and> (\<exists>s'. update_string_literal sha256_config (example_hasher 5) ([0x61, 0x62, 0x63] @ [0]) = Some s'
          \<and> total_length s' = 8)"
proof -
  have 1: "0 < block_size_bytes sha256_config"
    and 2: "block_used (example_hasher 5) < block_size_bytes sha256_config"
    by (simp_all add: block_size_bytes_def sha256_config_def example_hasher_def)
  have 3: "total_length (example_hasher 5) + of_nat (length ([0x61, 0x62, 0x63 :: byte] @ [0]) - 1) = 8"
    by (simp add: example_hasher_def)
  from 1 2 string_literal_excludes_terminator[OF 1 2, of "[0x61, 0x62, 0x63]" 0] show ?thesis
    unfolding 3 by blast
qed

subsection \<open>Finalizer\<close>

text \<open>
  Claim C10. Where its assertion holds, \<^verbatim>\<open>finalize_buffer\<close> returns and changes the
  fields \<^verbatim>\<open>hash\<close> and \<^verbatim>\<open>block\<close> only: \<^verbatim>\<open>total_length\<close> and \<^verbatim>\<open>block_used\<close> are as
  before, and \<^verbatim>\<open>size()\<close> after \<^verbatim>\<open>final\<close> is \<^verbatim>\<open>size()\<close> before it.
\<close>

theorem finalize_keeps_length:
  assumes "block_used s < block_size_bytes cfg"
  shows "\<exists>s'. finalize_buffer cfg s = Some s'
          \<and> total_length s' = total_length s
          \<and> block_used s' = block_used s
          \<and> s' = s\<lparr>hash := hash s', block := block s'\<rparr>
          \<and> final cfg s digest = Some (s', write_result_into cfg s' digest)
          \<and> size_hasher s' = size_hasher s"
  by (simp add: finalize_buffer_Some[OF assms] final_def size_hasher_def)

theorem finalize_keeps_length_witness:
  "block_used (example_hasher 5) < block_size_bytes sha256_config
   \<and> (\<exists>s'. finalize_buffer sha256_config (example_hasher 5) = Some s'
          \<and> total_length s' = 5 \<and> block_used s' = 5 \<and> size_hasher s' = 5)"
proof -
  have 1: "block_used (example_hasher 5) < block_size_bytes sha256_config"
    by (simp add: block_size_bytes_def sha256_config_def example_hasher_def)
  have 2: "total_length (example_hasher 5) = 5" "block_used (example_hasher 5) = 5"
      "size_hasher (example_hasher 5) = 5"
    by (simp_all add: example_hasher_def size_hasher_def)
  from 1 finalize_keeps_length[OF 1, of "replicate 32 0"] show ?thesis
    unfolding 2 by blast
qed

lemma bigendian_bytes_Suc:
  "bigendian_bytes (Suc n) v = of_nat (v div 256 ^ n) # bigendian_bytes n v"
proof (rule nth_equalityI)
  fix i assume "i < length (bigendian_bytes (Suc n) v)"
  then have "i < Suc n" by (simp add: bigendian_bytes_def)
  then show "bigendian_bytes (Suc n) v ! i = (of_nat (v div 256 ^ n) # bigendian_bytes n v) ! i"
    by (cases i) (simp_all add: bigendian_bytes_def del: upt_Suc)
qed (simp add: bigendian_bytes_def)

lemma length_bigendian_bytes [simp]: "length (bigendian_bytes n v) = n"
  by (simp add: bigendian_bytes_def)

lemma bigendian_bytes_drop:
  "m \<le> n \<Longrightarrow> drop (n - m) (bigendian_bytes n v) = bigendian_bytes m v"
proof (rule nth_equalityI)
  assume mn: "m \<le> n"
  fix i assume "i < length (drop (n - m) (bigendian_bytes n v))"
  then have i: "i < m" using mn by (simp add: bigendian_bytes_def)
  then have "n - m + i < n" "n - 1 - (n - m + i) = m - 1 - i" using mn by simp_all
  then show "drop (n - m) (bigendian_bytes n v) ! i = bigendian_bytes m v ! i"
    using i mn by (simp add: bigendian_bytes_def)
qed (simp add: bigendian_bytes_def)

lemma bigendian_bytes_zeros:
  "v < 256 ^ n \<Longrightarrow> replicate k 0 @ bigendian_bytes n v = bigendian_bytes (k + n) v"
proof (induction k)
  case 0
  then show ?case by simp
next
  case (Suc k)
  have "256 ^ n \<le> (256::nat) ^ (k + n)" by (simp add: power_increasing)
  with Suc.prems have "v < 256 ^ (k + n)" by (rule less_le_trans)
  then have "v div 256 ^ (k + n) = 0" by simp
  with Suc show ?case by (simp add: bigendian_bytes_Suc)
qed

lemma foldl_bigendian_bytes:
  "foldl (\<lambda>acc b. acc * 256 + unat (b::byte)) acc (bigendian_bytes n v) = acc * 256 ^ n + v mod 256 ^ n"
proof (induction n arbitrary: acc)
  case 0
  then show ?case by (simp add: bigendian_bytes_def)
next
  case (Suc n)
  have "unat (of_nat (v div 256 ^ n) :: byte) = (v div 256 ^ n) mod 256"
    by (simp add: unat_of_nat)
  moreover have "v mod (256 ^ n * 256) = 256 ^ n * ((v div 256 ^ n) mod 256) + v mod 256 ^ n"
    by (rule mod_mult2_eq)
  then have "v mod 256 ^ Suc n = (v div 256 ^ n) mod 256 * 256 ^ n + v mod 256 ^ n"
    by (simp only: power_Suc2 mult.commute)
  ultimately show ?case
    by (simp add: bigendian_bytes_Suc Suc.IH add_mult_distrib mult.assoc)
qed

lemma bigendian_value_bytes: "v < 256 ^ n \<Longrightarrow> bigendian_value (bigendian_bytes n v) = v"
  by (simp add: bigendian_value_def foldl_bigendian_bytes)

lemma unwrap_bigendian_bytes:
  "unwrap_bigendian_number (w::'a::len word) = bigendian_bytes (LENGTH('a) div 8) (unat w)"
proof -
  define B where "B = LENGTH('a) div 8"
  have byte: "(ucast (drop_bit (B * 8 - 8 - 8 * i) w) :: byte) = of_nat (unat w div 256 ^ (B - 1 - i))" for i
  proof -
    have "B * 8 - 8 - 8 * i = 8 * (B - 1 - i)" by (simp add: algebra_simps)
    moreover have "(256::nat) ^ k = 2 ^ (8 * k)" for k by (simp add: power_mult)
    moreover have "(ucast (drop_bit k w) :: byte) = of_nat (drop_bit k (unat w))" for k
      by (rule bit_word_eqI) (auto simp: bit_simps)
    ultimately show ?thesis
      by (simp add: drop_bit_eq_div)
  qed
  show ?thesis
    unfolding unwrap_bigendian_number_def bigendian_bytes_def Let_def B_def[symmetric]
    by (simp only: byte)
qed


lemma pad_block_eq:
  assumes "block_used s < block_size_bytes cfg" "length (block s) = block_size_bytes cfg"
  shows "pad_block cfg s = take (block_used s) (block s) @ [0x80]
            @ replicate (block_size_bytes cfg - block_used s - 1) 0"
  using assms by (simp add: pad_block_def Let_def take_Suc_conv_app_nth)

lemma length_pad_block:
  assumes "block_used s < block_size_bytes cfg" "length (block s) = block_size_bytes cfg"
  shows "length (pad_block cfg s) = block_size_bytes cfg"
  using assms by (simp add: pad_block_eq)

text \<open>
  Claim C3. In a hasher with \<^verbatim>\<open>block_used < block_size_bytes\<close>, the padded block of
  \<^verbatim>\<open>finalize_buffer\<close> is the buffered bytes, the byte 0x80 at offset \<^verbatim>\<open>block_used\<close>, and
  zeros to the end of the block. The blocks compressed are that block and then a zero
  block carrying the length exactly when the free space
  \<^verbatim>\<open>block_size_bytes - block_used\<close> is less than \<^verbatim>\<open>1 + length_size_bits / 8\<close>, and the
  padded block carrying the length alone otherwise; free space of exactly
  \<^verbatim>\<open>length_size_bits / 8\<close> bytes gives the two blocks.
\<close>

theorem finalize_padding:
  assumes "block_used s < block_size_bytes cfg" "length (block s) = block_size_bytes cfg"
  shows "pad_block cfg s = take (block_used s) (block s) @ [0x80]
            @ replicate (block_size_bytes cfg - block_used s - 1) 0
    \<and> (\<exists>s'. finalize_buffer cfg s = Some s'
          \<and> hash s' = fold (\<lambda>b h. rounds cfg (build_staging cfg b) h) (finalize_blocks cfg s) (hash s)
          \<and> block s' = last (finalize_blocks cfg s))
    \<and> (finalize_blocks cfg s = [pad_block cfg s, put_length cfg s (replicate (block_size_bytes cfg) 0)]
        \<longleftrightarrow> block_size_bytes cfg - block_used s < 1 + length_size_bits cfg div 8)
    \<and> (finalize_blocks cfg s = [put_length cfg s (pad_block cfg s)]
        \<longleftrightarrow> \<not> block_size_bytes cfg - block_used s < 1 + length_size_bits cfg div 8)
    \<and> (block_size_bytes cfg - block_used s = length_size_bits cfg div 8
        \<longrightarrow> finalize_blocks cfg s = [pad_block cfg s, put_length cfg s (replicate (block_size_bytes cfg) 0)])"
  using pad_block_eq[OF assms] finalize_buffer_Some[OF assms(1)]
  by (simp add: finalize_blocks_def)

theorem finalize_padding_witness:
  "block_used (example_hasher 56) < block_size_bytes sha256_config
   \<and> length (block (example_hasher 56)) = block_size_bytes sha256_config
   \<and> block_size_bytes sha256_config - block_used (example_hasher 56) = length_size_bits sha256_config div 8
   \<and> pad_block sha256_config (example_hasher 56) = replicate 56 0x61 @ [0x80] @ replicate 7 0
   \<and> finalize_blocks sha256_config (example_hasher 56)
       = [pad_block sha256_config (example_hasher 56),
          put_length sha256_config (example_hasher 56) (replicate 64 0)]
   \<and> \<not> block_size_bytes sha256_config - block_used (example_hasher 55) < 1 + length_size_bits sha256_config div 8
   \<and> finalize_blocks sha256_config (example_hasher 55)
       = [put_length sha256_config (example_hasher 55) (pad_block sha256_config (example_hasher 55))]"
proof -
  have B: "block_size_bytes sha256_config = 64" and K: "length_size_bits sha256_config div 8 = 8"
    by (simp_all add: block_size_bytes_def sha256_config_def)
  have s56: "block_used (example_hasher 56) = 56" "length (block (example_hasher 56)) = 64"
      "block (example_hasher 56) = replicate 64 0x61"
    and s55: "block_used (example_hasher 55) = 55" "length (block (example_hasher 55)) = 64"
    by (simp_all add: example_hasher_def)
  have "take 56 (replicate 64 (0x61::byte)) = replicate 56 0x61"
    by simp
  with finalize_padding[of "example_hasher 56" sha256_config]
    finalize_padding[of "example_hasher 55" sha256_config]
  show ?thesis
    unfolding B K s56 s55 by simp
qed

lemma length_suffix:
  assumes X: "length X = B" "drop (B - Kb) X = replicate Kb 0"
    and le: "Lb \<le> B" "Kb \<le> B"
    and v: "v < 256 ^ Lb" "v < 256 ^ Kb"
  shows "drop (B - Kb) (take (B - Lb) X @ bigendian_bytes Lb v) = bigendian_bytes Kb v"
proof (cases "Kb \<le> Lb")
  case True
  then have "B - Kb - (B - Lb) = Lb - Kb" "B - Lb \<le> B - Kb" using le by simp_all
  moreover have "length (take (B - Lb) X) = B - Lb" using X(1) by simp
  ultimately have "drop (B - Kb) (take (B - Lb) X @ bigendian_bytes Lb v)
      = drop (Lb - Kb) (bigendian_bytes Lb v)"
    by (simp only: drop_append drop_all append_Nil)
  then show ?thesis using True by (simp only: bigendian_bytes_drop)
next
  case False
  then have "drop (B - Kb) (take (B - Lb) X) = take (Kb - Lb) (replicate Kb 0)"
    using le by (simp add: drop_take flip: X(2))
  also have "\<dots> = replicate (Kb - Lb) 0" by simp
  finally have "drop (B - Kb) (take (B - Lb) X @ bigendian_bytes Lb v)
      = replicate (Kb - Lb) 0 @ bigendian_bytes Lb v"
    using X(1) le False by simp
  also have "\<dots> = bigendian_bytes (Kb - Lb + Lb) v"
    using v(1) by (rule bigendian_bytes_zeros)
  finally show ?thesis using False by simp
qed

text \<open>
  Claim C4. In the last block compressed by \<^verbatim>\<open>finalize_buffer\<close>, which is the block it
  leaves in the buffer, the final \<^verbatim>\<open>length_size_bits / 8\<close> bytes are the big-endian bytes
  of \<^verbatim>\<open>total_length * 8\<close>, and read as a big-endian number they are that bit count. The
  bit count does not overflow \<^verbatim>\<open>length_type\<close> and fits the length field; the second
  follows from the first when \<^verbatim>\<open>sizeof(length_type)\<close> is at most
  \<^verbatim>\<open>length_size_bits / 8\<close>, equal or not.
\<close>

theorem finalize_length_suffix:
  fixes cfg :: "'w::len config" and s :: "('w, 'l::len) internal_hasher"
  assumes "block_used s < block_size_bytes cfg" "length (block s) = block_size_bytes cfg"
    and "8 dvd LENGTH('l)" "LENGTH('l) div 8 \<le> block_size_bytes cfg"
    and "length_size_bits cfg div 8 \<le> block_size_bytes cfg"
    and "unat (total_length s) * 8 < 2 ^ LENGTH('l)"
    and "unat (total_length s) * 8 < 2 ^ (8 * (length_size_bits cfg div 8))"
  shows "(\<exists>s'. finalize_buffer cfg s = Some s' \<and> block s' = last (finalize_blocks cfg s))
    \<and> length (last (finalize_blocks cfg s)) = block_size_bytes cfg
    \<and> drop (block_size_bytes cfg - length_size_bits cfg div 8) (last (finalize_blocks cfg s))
        = bigendian_bytes (length_size_bits cfg div 8) (unat (total_length s) * 8)
    \<and> bigendian_value (drop (block_size_bytes cfg - length_size_bits cfg div 8) (last (finalize_blocks cfg s)))
        = unat (total_length s) * 8"
proof -
  let ?B = "block_size_bytes cfg" and ?Kb = "length_size_bits cfg div 8" and ?Lb = "LENGTH('l) div 8"
  let ?v = "unat (total_length s) * 8"
  have pow: "(256::nat) ^ k = 2 ^ (8 * k)" for k by (simp add: power_mult)
  have "8 * ?Lb = LENGTH('l)" using assms(3) by simp
  then have vL: "?v < 256 ^ ?Lb" using assms(6) by (simp add: pow)
  have vK: "?v < 256 ^ ?Kb" using assms(7) by (simp add: pow)
  have "8 \<le> LENGTH('l)"
    using assms(3) by (rule dvd_imp_le) simp
  then have "(2::nat) ^ 8 \<le> 2 ^ LENGTH('l)"
    by (intro power_increasing) simp_all
  then have "unat (8 :: 'l word) = 8"
    by (simp add: take_bit_nat_eq_self)
  then have "unat (total_length s * 8) = ?v"
    using assms(6) by (simp only: unat_word_ariths mod_less)
  then have put: "put_length cfg s X = take (?B - ?Lb) X @ bigendian_bytes ?Lb ?v" for X
    by (simp add: put_length_def unwrap_bigendian_bytes)
  define X where "X = (if ?B - block_used s < 1 + ?Kb then replicate ?B 0 else pad_block cfg s)"
  have last: "last (finalize_blocks cfg s) = put_length cfg s X"
    by (simp add: finalize_blocks_def X_def)
  have lenX: "length X = ?B"
    using assms(1,2) by (simp add: X_def length_pad_block)
  have zeros: "drop (?B - ?Kb) X = replicate ?Kb 0"
  proof (cases "?B - block_used s < 1 + ?Kb")
    case True
    then show ?thesis using assms(5) by (simp add: X_def)
  next
    case False
    then have "block_used s + 1 + ?Kb \<le> ?B" by simp
    define d where "d = ?B - ?Kb - block_used s - 1"
    have d: "?B - ?Kb = d + (1 + block_used s)" "?B - block_used s - 1 - d = ?Kb"
      using \<open>block_used s + 1 + ?Kb \<le> ?B\<close> by (simp_all add: d_def)
    have "drop (block_used s) (pad_block cfg s) = [0x80] @ replicate (?B - block_used s - 1) 0"
      using assms(1,2) by (simp add: pad_block_eq)
    moreover have "?B - Suc (block_used s + d) = ?Kb"
      using d(2) by simp
    ultimately have "drop d (drop 1 (drop (block_used s) (pad_block cfg s))) = replicate ?Kb 0"
      by simp
    then have "drop (?B - ?Kb) (pad_block cfg s) = replicate ?Kb 0"
      by (simp only: drop_drop d(1))
    then show ?thesis
      using False by (simp add: X_def)
  qed
  have field: "drop (?B - ?Kb) (last (finalize_blocks cfg s)) = bigendian_bytes ?Kb ?v"
    unfolding last put using lenX zeros assms(4,5) vL vK by (rule length_suffix)
  have "length (last (finalize_blocks cfg s)) = ?B"
    unfolding last put using lenX assms(4) by simp
  with field vK show ?thesis
    by (simp add: finalize_buffer_Some[OF assms(1)] bigendian_value_bytes)
qed

theorem finalize_length_suffix_witness:
  "block_used (example_hasher 56) < block_size_bytes sha256_config
   \<and> length (block (example_hasher 56)) = block_size_bytes sha256_config
   \<and> unat (total_length (example_hasher 56)) * 8 < 2 ^ 64
   \<and> length (last (finalize_blocks sha256_config (example_hasher 56))) = 64
   \<and> drop 56 (last (finalize_blocks sha256_config (example_hasher 56))) = [0, 0, 0, 0, 0, 0, 1, 192]
   \<and> bigendian_value (drop 56 (last (finalize_blocks sha256_config (example_hasher 56)))) = 448"
proof -
  have B: "block_size_bytes sha256_config = 64" and K: "length_size_bits sha256_config div 8 = 8"
    by (simp_all add: block_size_bytes_def sha256_config_def)
  have s: "block_used (example_hasher 56) = 56" "length (block (example_hasher 56)) = 64"
      "unat (total_length (example_hasher 56)) = 56"
    by (simp_all add: example_hasher_def)
  have bytes: "bigendian_bytes 8 448 = [0, 0, 0, 0, 0, 0, 1, 192]"
    by (simp add: bigendian_bytes_def upt_rec)
  from finalize_length_suffix[of "example_hasher 56" sha256_config]
  show ?thesis
    unfolding B K s by (simp add: bytes bigendian_value_def)
qed

subsection \<open>Message scheduler\<close>


lemma bit_push_ucast_byte:
  "bit (push_bit k (ucast (b::byte)) :: 'a::len word) n
     \<longleftrightarrow> k \<le> n \<and> n < LENGTH('a) \<and> n - k < 8 \<and> bit b (n - k)"
  by (auto simp: bit_push_bit_iff bit_ucast_iff dest: bit_imp_le_length)

lemma bit_cast_from_bytes:
  "bit (cast_from_bytes bs :: 'a::len word) n
     \<longleftrightarrow> (\<exists>j < LENGTH('a) div 8. (LENGTH('a) div 8 - 1 - j) * 8 \<le> n \<and> n < LENGTH('a)
             \<and> n - (LENGTH('a) div 8 - 1 - j) * 8 < 8 \<and> bit (bs ! j) (n - (LENGTH('a) div 8 - 1 - j) * 8))"
  unfolding cast_from_bytes_def Let_def bit_foldr_or bit_push_ucast_byte
  by auto

lemma unwrap_cast:
  assumes "8 dvd LENGTH('a::len)" "length bs = LENGTH('a) div 8"
  shows "unwrap_bigendian_number (cast_from_bytes bs :: 'a word) = bs"
proof (rule nth_equalityI)
  show "length (unwrap_bigendian_number (cast_from_bytes bs :: 'a word)) = length bs"
    using assms(2) by simp
next
  fix i assume "i < length (unwrap_bigendian_number (cast_from_bytes bs :: 'a word))"
  then have i: "i < LENGTH('a) div 8" by simp
  define B where "B = LENGTH('a) div 8"
  have L: "LENGTH('a) = B * 8" using assms(1) by (simp add: B_def)
  have iB: "i < B" using i by (simp add: B_def)
  have nth: "unwrap_bigendian_number (cast_from_bytes bs :: 'a word) ! i
      = ucast (drop_bit ((B - 1 - i) * 8) (cast_from_bytes bs :: 'a word))"
  proof -
    have "B * 8 - 8 - 8 * i = (B - 1 - i) * 8" by (simp add: algebra_simps)
    then show ?thesis
      unfolding unwrap_bigendian_number_def Let_def B_def[symmetric]
      using iB by (simp only: nth_map length_upt diff_zero nth_upt add_0)
  qed
  show "unwrap_bigendian_number (cast_from_bytes bs :: 'a word) ! i = bs ! i"
    unfolding nth
  proof (rule bit_word_eqI)
    fix m assume "m < LENGTH(8)"
    then have m: "m < 8" by simp
    have "bit (ucast (drop_bit ((B - 1 - i) * 8) (cast_from_bytes bs :: 'a word)) :: byte) m
        \<longleftrightarrow> bit (cast_from_bytes bs :: 'a word) ((B - 1 - i) * 8 + m)"
      using m by (simp add: bit_ucast_iff bit_drop_bit_eq)
    also have "\<dots> \<longleftrightarrow> (\<exists>j < B. (B - 1 - j) * 8 \<le> (B - 1 - i) * 8 + m \<and> (B - 1 - i) * 8 + m < B * 8
             \<and> (B - 1 - i) * 8 + m - (B - 1 - j) * 8 < 8
             \<and> bit (bs ! j) ((B - 1 - i) * 8 + m - (B - 1 - j) * 8))"
      unfolding bit_cast_from_bytes unfolding B_def[symmetric] unfolding L ..
    also have "\<dots> \<longleftrightarrow> bit (bs ! i) m"
    proof
      assume "\<exists>j < B. (B - 1 - j) * 8 \<le> (B - 1 - i) * 8 + m \<and> (B - 1 - i) * 8 + m < B * 8
             \<and> (B - 1 - i) * 8 + m - (B - 1 - j) * 8 < 8
             \<and> bit (bs ! j) ((B - 1 - i) * 8 + m - (B - 1 - j) * 8)"
      then obtain j where j: "j < B" "(B - 1 - j) * 8 \<le> (B - 1 - i) * 8 + m"
          "(B - 1 - i) * 8 + m - (B - 1 - j) * 8 < 8"
          "bit (bs ! j) ((B - 1 - i) * 8 + m - (B - 1 - j) * 8)"
        by blast
      have "j = i" using j(1-3) iB m by arith
      with j(4) show "bit (bs ! i) m" by simp
    next
      assume "bit (bs ! i) m"
      moreover have "(B - 1 - i) * 8 + m < B * 8" using iB m by arith
      ultimately show "\<exists>j < B. (B - 1 - j) * 8 \<le> (B - 1 - i) * 8 + m \<and> (B - 1 - i) * 8 + m < B * 8
             \<and> (B - 1 - i) * 8 + m - (B - 1 - j) * 8 < 8
             \<and> bit (bs ! j) ((B - 1 - i) * 8 + m - (B - 1 - j) * 8)"
        using iB m by (intro exI[of _ i]) simp
    qed
    finally show "bit (ucast (drop_bit ((B - 1 - i) * 8) (cast_from_bytes bs :: 'a word)) :: byte) m
        \<longleftrightarrow> bit (bs ! i) m" .
  qed
qed

lemma cast_bigendian_value:
  assumes "8 dvd LENGTH('a::len)" "length bs = LENGTH('a) div 8"
  shows "(cast_from_bytes bs :: 'a word) = of_nat (bigendian_value bs)"
proof -
  let ?w = "cast_from_bytes bs :: 'a word"
  have "(256::nat) ^ (LENGTH('a) div 8) = 2 ^ (8 * (LENGTH('a) div 8))" by (simp add: power_mult)
  also have "8 * (LENGTH('a) div 8) = LENGTH('a)" using assms(1) by simp
  finally have "unat ?w < 256 ^ (LENGTH('a) div 8)" by simp
  then have "bigendian_value (bigendian_bytes (LENGTH('a) div 8) (unat ?w)) = unat ?w"
    by (rule bigendian_value_bytes)
  moreover have "bigendian_bytes (LENGTH('a) div 8) (unat ?w) = bs"
    using unwrap_cast[OF assms] by (simp add: unwrap_bigendian_bytes)
  ultimately show ?thesis by simp
qed


lemma fill_fold:
  assumes "n \<le> length w0"
  shows "length (fold (fill_staging chunk) [0..<n] w0) = length w0
    \<and> (\<forall>i<n. fold (fill_staging chunk) [0..<n] w0 ! i
          = (cast_from_bytes (take (LENGTH('w) div 8) (drop (i * (LENGTH('w) div 8)) chunk)) :: 'w::len word))"
  using assms
proof (induction n)
  case 0
  then show ?case by simp
next
  case (Suc n)
  then show ?case
    by (auto simp: fill_staging_def nth_list_update less_Suc_eq)
qed

lemma expand_staging_eq:
  "expand_staging cfg i w = w[i := schedule_word (staging_constants cfg) w i]"
  by (simp add: expand_staging_def schedule_word_def Let_def)

lemma schedule_word_cong:
  assumes "16 \<le> i" "\<forall>j<i. w ! j = w' ! j"
  shows "schedule_word c w i = schedule_word c w' i"
proof -
  have "w ! (i - 16) = w' ! (i - 16)" "w ! (i - 15) = w' ! (i - 15)"
    "w ! (i - 7) = w' ! (i - 7)" "w ! (i - 2) = w' ! (i - 2)"
    using assms by simp_all
  then show ?thesis by (simp add: schedule_word_def)
qed

lemma expand_fold:
  assumes "16 \<le> a" "a \<le> n" "n \<le> length w1"
  shows "length (fold (expand_staging cfg) [a..<n] w1) = length w1
    \<and> (\<forall>i<a. fold (expand_staging cfg) [a..<n] w1 ! i = w1 ! i)
    \<and> (\<forall>i. a \<le> i \<and> i < n \<longrightarrow> fold (expand_staging cfg) [a..<n] w1 ! i
          = schedule_word (staging_constants cfg) (fold (expand_staging cfg) [a..<n] w1) i)"
  using assms(2,3)
proof (induction n rule: dec_induct)
  case base
  then show ?case by auto
next
  case (step n)
  let ?E = "fold (expand_staging cfg) [a..<n] w1"
  let ?c = "staging_constants cfg"
  from step have IH: "length ?E = length w1" "\<forall>i<a. ?E ! i = w1 ! i"
    "\<forall>i. a \<le> i \<and> i < n \<longrightarrow> ?E ! i = schedule_word ?c ?E i"
    by simp_all
  have E': "fold (expand_staging cfg) [a..<Suc n] w1 = ?E[n := schedule_word ?c ?E n]"
    using step.hyps(1) by (simp add: expand_staging_eq)
  have n16: "16 \<le> n" using assms(1) step.hyps(1) by simp
  have nlen: "n < length ?E" using step.prems IH(1) by simp
  have same: "schedule_word ?c (?E[n := x]) i = schedule_word ?c ?E i" if "16 \<le> i" "i \<le> n" for i x
    using that by (intro schedule_word_cong) simp_all
  show ?case unfolding E'
  proof (intro conjI allI impI)
    show "length (?E[n := schedule_word ?c ?E n]) = length w1" using IH(1) by simp
  next
    fix i assume "i < a"
    with step.hyps(1) IH(2) show "?E[n := schedule_word ?c ?E n] ! i = w1 ! i" by simp
  next
    fix i assume i: "a \<le> i \<and> i < Suc n"
    then have i16: "16 \<le> i" "i \<le> n" using assms(1) by simp_all
    show "?E[n := schedule_word ?c ?E n] ! i
        = schedule_word ?c (?E[n := schedule_word ?c ?E n]) i"
    proof (cases "i = n")
      case True
      then show ?thesis using nlen by (simp add: same[OF n16])
    next
      case False
      with i have "i < n" by simp
      with i IH(3) False show ?thesis by (simp add: same[OF i16])
    qed
  qed
qed

lemma build_staging_from_schedule:
  fixes cfg :: "'w::len config"
  assumes "length w0 = staging_size cfg" "length chunk = block_size_bytes cfg" "8 dvd LENGTH('w)"
    "16 \<le> first_part_size cfg" "first_part_size cfg \<le> staging_size cfg"
  shows "length (build_staging_from w0 cfg chunk) = staging_size cfg"
    "\<forall>i < first_part_size cfg. build_staging_from w0 cfg chunk ! i
        = of_nat (bigendian_value (take (LENGTH('w) div 8) (drop (i * (LENGTH('w) div 8)) chunk)))"
    "\<forall>i. first_part_size cfg \<le> i \<and> i < staging_size cfg
        \<longrightarrow> build_staging_from w0 cfg chunk ! i
          = schedule_word (staging_constants cfg) (build_staging_from w0 cfg chunk) i"
proof -
  let ?a = "first_part_size cfg" and ?n = "staging_size cfg" and ?Wb = "LENGTH('w) div 8"
  let ?w1 = "fold (fill_staging chunk) [0..<?a] w0 :: 'w word list"
  have a: "?a \<le> length w0" using assms(1,5) by simp
  note F = fill_fold[OF a, of chunk]
  have n: "?n \<le> length ?w1" using F assms(1) by simp
  note E = expand_fold[OF assms(4,5) n, of cfg]
  show "length (build_staging_from w0 cfg chunk) = ?n"
    using E F assms(1) by (simp add: build_staging_from_def)
  show "\<forall>i. ?a \<le> i \<and> i < ?n \<longrightarrow> build_staging_from w0 cfg chunk ! i
          = schedule_word (staging_constants cfg) (build_staging_from w0 cfg chunk) i"
    using E unfolding build_staging_from_def by blast
  show "\<forall>i < ?a. build_staging_from w0 cfg chunk ! i
        = of_nat (bigendian_value (take ?Wb (drop (i * ?Wb) chunk)))"
  proof (intro allI impI)
    fix i assume i: "i < ?a"
    have "0 < ?Wb" using assms(3) by (simp add: dvd_imp_le pos_imp_zdiv_pos_iff div_greater_zero_iff)
    have "Suc i * ?Wb \<le> ?a * ?Wb" using i by (intro mult_le_mono1) simp
    also have "\<dots> \<le> block_size_bytes cfg" by (simp add: first_part_size_def)
    finally have "i * ?Wb + ?Wb \<le> length chunk" using assms(2) by simp
    then have len: "length (take ?Wb (drop (i * ?Wb) chunk)) = ?Wb" by simp
    have "build_staging_from w0 cfg chunk ! i = ?w1 ! i"
      using E i unfolding build_staging_from_def by blast
    also have "\<dots> = cast_from_bytes (take ?Wb (drop (i * ?Wb) chunk))"
      using F i by blast
    also have "\<dots> = of_nat (bigendian_value (take ?Wb (drop (i * ?Wb) chunk)))"
      using assms(3) len by (rule cast_bigendian_value)
    finally show "build_staging_from w0 cfg chunk ! i
        = of_nat (bigendian_value (take ?Wb (drop (i * ?Wb) chunk)))" .
  qed
qed


lemma schedule_unique:
  assumes len: "length w = n" "length w' = n" and a: "16 \<le> a"
    and first: "\<forall>i<a. w ! i = w' ! i"
    and rec: "\<forall>i. a \<le> i \<and> i < n \<longrightarrow> w ! i = schedule_word c w i"
      "\<forall>i. a \<le> i \<and> i < n \<longrightarrow> w' ! i = schedule_word c w' i"
  shows "w = w'"
proof (rule nth_equalityI)
  show "length w = length w'" using len by simp
next
  fix i assume "i < length w"
  then have "i < n" using len by simp
  then show "w ! i = w' ! i"
  proof (induction i rule: less_induct)
    case (less i)
    show ?case
    proof (cases "i < a")
      case True
      then show ?thesis using first by simp
    next
      case False
      then have i: "a \<le> i \<and> i < n" "16 \<le> i" using less.prems a by simp_all
      have "\<forall>j<i. w ! j = w' ! j" using less.IH less.prems by simp
      with i(2) have "schedule_word c w i = schedule_word c w' i" by (rule schedule_word_cong)
      with rec i(1) show ?thesis by simp
    qed
  qed
qed

lemma build_staging_from_any:
  fixes cfg :: "'w::len config"
  assumes "length w0 = staging_size cfg" "length chunk = block_size_bytes cfg" "8 dvd LENGTH('w)"
    "16 \<le> first_part_size cfg" "first_part_size cfg \<le> staging_size cfg"
  shows "build_staging_from w0 cfg chunk = build_staging cfg chunk"
proof -
  have z: "length (replicate (staging_size cfg) (0::'w word)) = staging_size cfg" by simp
  note A = build_staging_from_schedule[OF assms]
  note Z = build_staging_from_schedule[OF z assms(2-5)]
  show ?thesis
    unfolding build_staging_def
    using A(1) Z(1) assms(4)
  proof (rule schedule_unique)
    show "\<forall>i<first_part_size cfg. build_staging_from w0 cfg chunk ! i
        = build_staging_from (replicate (staging_size cfg) 0) cfg chunk ! i"
      using A(2) Z(2) by simp
  qed (use A(3) Z(3) in blast)+
qed

text \<open>
  Claim C5. For a full block, with a first part of at least 16 words that fits the
  schedule, \<^verbatim>\<open>build_staging\<close> returns \<^verbatim>\<open>staging_size\<close> words: entry \<open>i\<close> of the first
  part is the big-endian value of the \<open>i\<close>-th window of \<^verbatim>\<open>sizeof(staging_item_t)\<close> bytes
  of the block, and every entry from \<^verbatim>\<open>first_part_size\<close> on is
  \<^verbatim>\<open>w[i-16] + s0 + w[i-7] + s1\<close> in the returned array, the sum wrapping at the word
  width. The result does not depend on the first content of the uninitialized array.
\<close>

theorem build_staging_schedule:
  fixes cfg :: "'w::len config"
  assumes "length chunk = block_size_bytes cfg" "8 dvd LENGTH('w)"
    "16 \<le> first_part_size cfg" "first_part_size cfg \<le> staging_size cfg"
  shows "length (build_staging cfg chunk) = staging_size cfg
    \<and> (\<forall>i < first_part_size cfg. build_staging cfg chunk ! i
          = of_nat (bigendian_value (take (LENGTH('w) div 8) (drop (i * (LENGTH('w) div 8)) chunk))))
    \<and> (\<forall>i. first_part_size cfg \<le> i \<and> i < staging_size cfg
          \<longrightarrow> build_staging cfg chunk ! i
            = schedule_word (staging_constants cfg) (build_staging cfg chunk) i)
    \<and> (\<forall>w0. length w0 = staging_size cfg \<longrightarrow> build_staging_from w0 cfg chunk = build_staging cfg chunk)"
proof -
  have z: "length (replicate (staging_size cfg) (0::'w word)) = staging_size cfg" by simp
  note Z = build_staging_from_schedule[OF z assms, folded build_staging_def]
  show ?thesis
    using Z build_staging_from_any[OF _ assms] by blast
qed

theorem build_staging_schedule_witness:
  "length (replicate 64 (0x61::byte)) = block_size_bytes sha256_config
   \<and> 16 \<le> first_part_size sha256_config \<and> first_part_size sha256_config \<le> staging_size sha256_config
   \<and> length (build_staging sha256_config (replicate 64 0x61)) = 64
   \<and> build_staging sha256_config (replicate 64 0x61) ! 1 = 0x61616161
   \<and> build_staging sha256_config (replicate 64 0x61) ! 16
       = schedule_word [7, 18, 3, 17, 19, 10] (build_staging sha256_config (replicate 64 0x61)) 16"
proof -
  have B: "block_size_bytes sha256_config = 64" and fps: "first_part_size sha256_config = 16"
    and n: "staging_size sha256_config = 64" and c: "staging_constants sha256_config = [7, 18, 3, 17, 19, 10]"
    by (simp_all add: block_size_bytes_def first_part_size_def staging_size_def sha256_config_def)
  have h: "length (replicate 64 (0x61::byte)) = block_size_bytes sha256_config" "8 dvd LENGTH(32)"
    "16 \<le> first_part_size sha256_config" "first_part_size sha256_config \<le> staging_size sha256_config"
    by (simp_all add: B fps n)
  have r4: "replicate 4 (0x61::byte) = [0x61, 0x61, 0x61, 0x61]"
    by (simp add: eval_nat_numeral)
  have t: "take (LENGTH(32) div 8) (drop (1 * (LENGTH(32) div 8)) (replicate 64 (0x61::byte))) = replicate 4 0x61"
    by simp
  have v0: "bigendian_value [0x61, 0x61, 0x61, 0x61] = 1633771873"
    by (simp add: bigendian_value_def)
  have v: "(of_nat (bigendian_value (take (LENGTH(32) div 8) (drop (1 * (LENGTH(32) div 8)) (replicate 64 (0x61::byte))))) :: 32 word)
      = 0x61616161"
    unfolding t r4 v0 by simp
  note T = build_staging_schedule[OF h, unfolded fps n c]
  from T have 1: "length (build_staging sha256_config (replicate 64 0x61)) = 64"
    by (rule conjunct1)
  from T have 2: "\<forall>i < 16. build_staging sha256_config (replicate 64 0x61) ! i
          = of_nat (bigendian_value (take (LENGTH(32) div 8) (drop (i * (LENGTH(32) div 8)) (replicate 64 0x61))))"
    by (rule conjunct2[THEN conjunct1])
  from T have 3: "\<forall>i. 16 \<le> i \<and> i < 64
          \<longrightarrow> build_staging sha256_config (replicate 64 0x61) ! i
            = schedule_word [7, 18, 3, 17, 19, 10] (build_staging sha256_config (replicate 64 0x61)) i"
    by (rule conjunct2[THEN conjunct2, THEN conjunct1])
  have "(1::nat) < 16" by simp
  with 2 have 4: "build_staging sha256_config (replicate 64 0x61) ! 1
      = of_nat (bigendian_value (take (LENGTH(32) div 8) (drop (1 * (LENGTH(32) div 8)) (replicate 64 0x61))))"
    by blast
  have "(16::nat) \<le> 16 \<and> (16::nat) < 64" by simp
  with 3 have 5: "build_staging sha256_config (replicate 64 0x61) ! 16
       = schedule_word [7, 18, 3, 17, 19, 10] (build_staging sha256_config (replicate 64 0x61)) 16"
    by blast
  from h(1,3,4) 1 4[unfolded v] 5 show ?thesis
    by (intro conjI)
qed

subsection \<open>Compression round\<close>

lemma round_step_spec:
  assumes "length v = 8"
  shows "round_step cfg w i v = round_spec (compress_constants cfg) (constants cfg ! i) (w ! i) v"
    and "length (round_spec k ki wi v) = 8"
proof -
  from assms have "length v = Suc (Suc (Suc (Suc (Suc (Suc (Suc (Suc 0)))))))" by simp
  then obtain a b c d e f g h where v: "v = [a, b, c, d, e, f, g, h]"
    by (auto simp: length_Suc_conv)
  show "round_step cfg w i v = round_spec (compress_constants cfg) (constants cfg ! i) (w ! i) v"
    unfolding v by (simp add: round_step_def round_spec_def Let_def)
  show "length (round_spec k ki wi v) = 8"
    unfolding v by (simp add: round_spec_def Let_def)
qed

lemma fold_round_step:
  assumes "length state = 8"
  shows "fold (round_step cfg w) xs state
       = fold (\<lambda>i. round_spec (compress_constants cfg) (constants cfg ! i) (w ! i)) xs state
     \<and> length (fold (\<lambda>i. round_spec (compress_constants cfg) (constants cfg ! i) (w ! i)) xs state) = 8"
  using assms
proof (induction xs arbitrary: state)
  case Nil
  then show ?case by simp
next
  case (Cons x xs)
  from round_step_spec[OF Cons.prems] have
    "round_step cfg w x state = round_spec (compress_constants cfg) (constants cfg ! x) (w ! x) state"
    "length (round_spec (compress_constants cfg) (constants cfg ! x) (w ! x) state) = 8"
    by simp_all
  with Cons.IH[of "round_spec (compress_constants cfg) (constants cfg ! x) (w ! x) state"]
  show ?case by simp
qed

lemma feed_forward:
  assumes "n \<le> length st" "n \<le> length wv"
  shows "fold (\<lambda>i st. st[i := st ! i + wv ! i]) [0..<n] st
       = map2 (+) (take n st) (take n wv) @ drop n st"
  using assms
proof (induction n)
  case 0
  then show ?case by simp
next
  case (Suc n)
  then have n: "n < length st" "n < length wv" by simp_all
  let ?r = "map2 (+) (take n st) (take n wv) @ drop n st"
  have "fold (\<lambda>i st. st[i := st ! i + wv ! i]) [0..<Suc n] st = ?r[n := ?r ! n + wv ! n]"
    using Suc by simp
  also have "?r ! n = st ! n" using n by (simp add: nth_append)
  also have "?r[n := st ! n + wv ! n] = map2 (+) (take n st) (take n wv) @ (st ! n + wv ! n) # drop (Suc n) st"
    using n by (simp add: list_update_append Cons_nth_drop_Suc[symmetric])
  also have "\<dots> = map2 (+) (take (Suc n) st) (take (Suc n) wv) @ drop (Suc n) st"
    using n by (simp add: take_Suc_conv_app_nth)
  finally show ?case .
qed

text \<open>
  Claim C6. On a state of eight words, \<^verbatim>\<open>rounds\<close> runs \<^verbatim>\<open>rounds_number\<close> times the
  update of the working variables that the spec writes
  \<^verbatim>\<open>h,g,f,e,d,c,b,a = g,f,e,(d+temp1),c,b,a,(temp1+temp2)\<close>, starting from the state, and
  then adds working variable \<open>j\<close> to the old \<^verbatim>\<open>state[j]\<close>, for each \<open>j\<close> below 8; the words
  wrap at their width.
\<close>

theorem rounds_compression:
  assumes "length state = 8"
  shows "length (fold (\<lambda>i. round_spec (compress_constants cfg) (constants cfg ! i) (w ! i))
                   [0..<rounds_number cfg] state) = 8
    \<and> rounds cfg w state
        = map2 (+) state (fold (\<lambda>i. round_spec (compress_constants cfg) (constants cfg ! i) (w ! i))
                           [0..<rounds_number cfg] state)
    \<and> (\<forall>j<8. rounds cfg w state ! j
          = state ! j + fold (\<lambda>i. round_spec (compress_constants cfg) (constants cfg ! i) (w ! i))
                           [0..<rounds_number cfg] state ! j)"
proof -
  let ?wv = "fold (\<lambda>i. round_spec (compress_constants cfg) (constants cfg ! i) (w ! i))
                           [0..<rounds_number cfg] state"
  from fold_round_step[OF assms, of cfg w "[0..<rounds_number cfg]"]
  have eq: "fold (round_step cfg w) [0..<rounds_number cfg] state = ?wv" and len: "length ?wv = 8"
    by simp_all
  have r: "rounds cfg w state = map2 (+) state ?wv"
    unfolding rounds_def Let_def eq
    using feed_forward[of "length state" state ?wv] assms len by simp
  have "\<forall>j<8. rounds cfg w state ! j = state ! j + ?wv ! j"
    unfolding r using assms len by simp
  with r len show ?thesis by blast
qed


theorem rounds_compression_witness:
  "length (initial_values sha256_config) = 8
   \<and> rounds sha256_config (build_staging sha256_config (replicate 64 0)) (initial_values sha256_config) ! 0
       = initial_values sha256_config ! 0
         + fold (\<lambda>i. round_spec (compress_constants sha256_config) (constants sha256_config ! i)
                        (build_staging sha256_config (replicate 64 0) ! i))
             [0..<rounds_number sha256_config] (initial_values sha256_config) ! 0"
proof -
  have h: "length (initial_values sha256_config) = 8" by (simp add: sha256_config_def)
  from rounds_compression[OF h, of sha256_config "build_staging sha256_config (replicate 64 0)"]
  have "\<forall>j<8. rounds sha256_config (build_staging sha256_config (replicate 64 0)) (initial_values sha256_config) ! j
       = initial_values sha256_config ! j
         + fold (\<lambda>i. round_spec (compress_constants sha256_config) (constants sha256_config ! i)
                        (build_staging sha256_config (replicate 64 0) ! i))
             [0..<rounds_number sha256_config] (initial_values sha256_config) ! j"
    by blast
  then show ?thesis using h by simp
qed

subsection \<open>Digest\<close>

text \<open>
  The constructor leaves \<^verbatim>\<open>block\<close> indeterminate, so two fresh hashers may differ in
  it. What the digest depends on is \<^verbatim>\<open>hash\<close>, \<^verbatim>\<open>total_length\<close>, \<^verbatim>\<open>block_used\<close> and the
  first \<^verbatim>\<open>block_used\<close> bytes of \<^verbatim>\<open>block\<close>: two hashers that agree on these still agree
  on them after the same \<^verbatim>\<open>update\<close>, and \<^verbatim>\<open>final\<close> gives them the same digest.
\<close>

lemma update_simulation:
  fixes s t :: "('w::len, 'l::len) internal_hasher"
  assumes "0 < block_size_bytes cfg" "block_used s < block_size_bytes cfg"
    and "length (block s) = block_size_bytes cfg" "length (block t) = block_size_bytes cfg"
    and "hash s = hash t" "total_length s = total_length t" "block_used s = block_used t"
    and "take (block_used s) (block s) = take (block_used t) (block t)"
  shows "\<exists>s' t'. update_to_buffer_and_process cfg s inp = Some s'
            \<and> update_to_buffer_and_process cfg t inp = Some t'
            \<and> block_used s' < block_size_bytes cfg
            \<and> length (block s') = block_size_bytes cfg \<and> length (block t') = block_size_bytes cfg
            \<and> hash s' = hash t' \<and> total_length s' = total_length t' \<and> block_used s' = block_used t'
            \<and> take (block_used s') (block s') = take (block_used t') (block t')"
  using assms
proof (induction "length inp" arbitrary: s t inp rule: less_induct)
  case less
  let ?B = "block_size_bytes cfg"
  let ?free = "?B - block_used s"
  show ?case
  proof (cases "length inp < ?free")
    case True
    then have "length inp < ?B - block_used t" using less.prems(7) by simp
    from update_short[OF True] update_short[OF this] less.prems True show ?thesis
      by simp
  next
    case False
    define s1 where "s1 = process_block cfg
          (s\<lparr>block := take (block_used s) (block s) @ take ?free inp
                       @ drop (block_used s + ?free) (block s),
             total_length := total_length s + of_nat ?free,
             block_used := 0\<rparr>)"
    define t1 where "t1 = process_block cfg
          (t\<lparr>block := take (block_used t) (block t) @ take (?B - block_used t) inp
                       @ drop (block_used t + (?B - block_used t)) (block t),
             total_length := total_length t + of_nat (?B - block_used t),
             block_used := 0\<rparr>)"
    have full: "?free \<le> length inp" "?B - block_used t \<le> length inp"
      using False less.prems(7) by simp_all
    have step: "update_to_buffer_and_process cfg s inp = update_to_buffer_and_process cfg s1 (drop ?free inp)"
      "update_to_buffer_and_process cfg t inp = update_to_buffer_and_process cfg t1 (drop ?free inp)"
      unfolding s1_def t1_def using update_full[OF full(1)] update_full[OF full(2)] less.prems(7)
      by simp_all
    have "0 < ?free" using less.prems(2) by simp
    then have shorter: "length (drop ?free inp) < length inp" using full(1) by simp
    have blocks: "block s1 = block t1"
      using less.prems(2,3,4,7,8) by (simp add: s1_def t1_def process_block_def)
    have inv: "block_used s1 < ?B" "length (block s1) = ?B" "length (block t1) = ?B"
      "hash s1 = hash t1" "total_length s1 = total_length t1" "block_used s1 = block_used t1"
      "take (block_used s1) (block s1) = take (block_used t1) (block t1)"
      using less.prems full(1) by (simp_all add: s1_def t1_def process_block_def)
    from less.hyps[OF shorter less.prems(1) inv] show ?thesis
      unfolding step .
  qed
qed

lemma finalize_blocks_simulation:
  fixes s t :: "('w::len, 'l::len) internal_hasher"
  assumes "block_used s < block_size_bytes cfg"
    and "length (block s) = block_size_bytes cfg" "length (block t) = block_size_bytes cfg"
    and "total_length s = total_length t" "block_used s = block_used t"
    and "take (block_used s) (block s) = take (block_used t) (block t)"
  shows "finalize_blocks cfg s = finalize_blocks cfg t"
proof -
  have t: "block_used t < block_size_bytes cfg" using assms(1,5) by simp
  have "pad_block cfg s = pad_block cfg t"
    unfolding pad_block_eq[OF assms(1,2)] pad_block_eq[OF t assms(3)] using assms(5,6) by simp
  moreover have "put_length cfg s X = put_length cfg t X" for X
    using assms(4) by (simp add: put_length_def)
  ultimately show ?thesis
    using assms(5) by (simp add: finalize_blocks_def)
qed

lemma final_simulation:
  fixes s t :: "('w::len, 'l::len) internal_hasher"
  assumes "block_used s < block_size_bytes cfg"
    and "length (block s) = block_size_bytes cfg" "length (block t) = block_size_bytes cfg"
    and "hash s = hash t" "total_length s = total_length t" "block_used s = block_used t"
    and "take (block_used s) (block s) = take (block_used t) (block t)"
  shows "\<exists>r1 r2. final cfg s digest = Some r1 \<and> final cfg t digest = Some r2 \<and> snd r1 = snd r2"
proof -
  have t: "block_used t < block_size_bytes cfg" using assms(1,6) by simp
  have "finalize_blocks cfg s = finalize_blocks cfg t"
    using assms(1,2,3,5,6,7) by (rule finalize_blocks_simulation)
  then show ?thesis
    using assms(4)
    by (simp add: final_def finalize_buffer_Some[OF assms(1)] finalize_buffer_Some[OF t]
        write_result_into_def)
qed

text \<open>
  Claim C1 (chunking independence). Take two freshly constructed hashers, whatever the
  indeterminate contents \<open>blk1\<close> and \<open>blk2\<close> of their block arrays, and a list of chunks.
  The successive \<^verbatim>\<open>update\<close> calls on the first, one per chunk, return, and so does the
  single \<^verbatim>\<open>update\<close> call on the second with the concatenation of the chunks; \<^verbatim>\<open>final\<close>
  returns on both, and the two digests are equal. The block size is positive and each
  block array has \<^verbatim>\<open>block_size_bytes\<close> elements, as its type says.
\<close>

theorem chunking_independence:
  fixes cfg :: "'w::len config"
  assumes "0 < block_size_bytes cfg"
    and "length blk1 = block_size_bytes cfg" "length blk2 = block_size_bytes cfg"
  shows "\<exists>s1 s2 r1 r2.
            updates cfg (hasher_new cfg blk1 :: ('w, 'l::len) internal_hasher) chunks = Some s1
          \<and> update cfg (hasher_new cfg blk2 :: ('w, 'l) internal_hasher) (concat chunks) = Some s2
          \<and> final cfg s1 digest = Some r1 \<and> final cfg s2 digest = Some r2
          \<and> snd r1 = snd r2
          \<and> hash s1 = hash s2 \<and> total_length s1 = total_length s2 \<and> block_used s1 = block_used s2
          \<and> take (block_used s1) (block s1) = take (block_used s2) (block s2)"
proof -
  let ?h1 = "hasher_new cfg blk1 :: ('w, 'l) internal_hasher"
  let ?h2 = "hasher_new cfg blk2 :: ('w, 'l) internal_hasher"
  have inv: "block_used ?h1 < block_size_bytes cfg" "length (block ?h1) = block_size_bytes cfg"
    "length (block ?h2) = block_size_bytes cfg" "hash ?h1 = hash ?h2"
    "total_length ?h1 = total_length ?h2" "block_used ?h1 = block_used ?h2"
    "take (block_used ?h1) (block ?h1) = take (block_used ?h2) (block ?h2)"
    using assms by (simp_all add: hasher_new_def)
  from update_simulation[OF assms(1) inv, of "concat chunks"] obtain s1 s2 where
    u: "update_to_buffer_and_process cfg ?h1 (concat chunks) = Some s1"
      "update_to_buffer_and_process cfg ?h2 (concat chunks) = Some s2"
    and sim: "block_used s1 < block_size_bytes cfg"
      "length (block s1) = block_size_bytes cfg" "length (block s2) = block_size_bytes cfg"
      "hash s1 = hash s2" "total_length s1 = total_length s2" "block_used s1 = block_used s2"
      "take (block_used s1) (block s1) = take (block_used s2) (block s2)"
    by blast
  have "updates cfg ?h1 chunks = Some s1"
    using updates_concat[OF assms(1) inv(1,2), of chunks] u(1) by simp
  moreover have "update cfg ?h2 (concat chunks) = Some s2"
    using u(2) by (simp add: update_def)
  moreover from final_simulation[OF sim, of digest] obtain r1 r2 where
    "final cfg s1 digest = Some r1" "final cfg s2 digest = Some r2" "snd r1 = snd r2"
    by blast
  ultimately show ?thesis using sim(4-7) by blast
qed

theorem chunking_independence_witness:
  "0 < block_size_bytes sha256_config
   \<and> length (replicate 64 (0::byte)) = block_size_bytes sha256_config
   \<and> length (replicate 64 (1::byte)) = block_size_bytes sha256_config
   \<and> (\<exists>s1 s2 r1 r2.
          updates sha256_config (hasher_new sha256_config (replicate 64 0) :: (32, 64) internal_hasher)
               [[0x61], [], [0x62, 0x63]] = Some s1
        \<and> update sha256_config (hasher_new sha256_config (replicate 64 1) :: (32, 64) internal_hasher)
               (concat [[0x61], [], [0x62, 0x63]]) = Some s2
        \<and> final sha256_config s1 (replicate 32 0) = Some r1
        \<and> final sha256_config s2 (replicate 32 0) = Some r2
        \<and> snd r1 = snd r2)"
proof -
  have 1: "0 < block_size_bytes sha256_config"
    and 2: "length (replicate 64 (0::byte)) = block_size_bytes sha256_config"
    and 3: "length (replicate 64 (1::byte)) = block_size_bytes sha256_config"
    by (simp_all add: block_size_bytes_def sha256_config_def)
  from 1 2 3 chunking_independence[OF 1 2 3, where 'l = 64 and chunks = "[[0x61], [], [0x62, 0x63]]"
      and digest = "replicate 32 0"]
  show ?thesis by blast
qed

subsection \<open>Known answers\<close>

text \<open>
  The model computes the digest that the spec gives for \<^verbatim>\<open>"abc"\<close> under the SHA-256
  configuration, and the published digest of the 56-byte message of the SHA-2
  specification, which leaves exactly \<^verbatim>\<open>length_size_bits / 8\<close> free bytes and takes the
  extra block; the message is passed as two chunks.
\<close>

lemma sha256_abc:
  "(case update sha256_config (hasher_new sha256_config (replicate 64 0) :: (32, 64) internal_hasher)
           [0x61, 0x62, 0x63] of
      None \<Rightarrow> None
    | Some s \<Rightarrow> map_option snd (final sha256_config s (replicate 32 0)))
   = Some [0xba, 0x78, 0x16, 0xbf, 0x8f, 0x01, 0xcf, 0xea, 0x41, 0x41, 0x40, 0xde, 0x5d, 0xae, 0x22, 0x23,
           0xb0, 0x03, 0x61, 0xa3, 0x96, 0x17, 0x7a, 0x9c, 0xb4, 0x10, 0xff, 0x61, 0xf2, 0x00, 0x15, 0xad]"
  by code_simp

lemma sha256_two_block_boundary:
  "(case updates sha256_config (hasher_new sha256_config (replicate 64 0) :: (32, 64) internal_hasher)
           [map (of_nat \<circ> of_char) ''abcdbcdecdefdefgefghfghighij'',
            map (of_nat \<circ> of_char) ''hijkijkljklmklmnlmnomnopnopq''] of
      None \<Rightarrow> None
    | Some s \<Rightarrow> map_option (\<lambda>r. (block_used s, length (finalize_blocks sha256_config s), snd r))
                 (final sha256_config s (replicate 32 0)))
   = Some (56, 2,
          [0x24, 0x8d, 0x6a, 0x61, 0xd2, 0x06, 0x38, 0xb8, 0xe5, 0xc0, 0x26, 0x93, 0x0c, 0x3e, 0x60, 0x39,
           0xa3, 0x3c, 0xe4, 0x59, 0x64, 0xff, 0x21, 0x67, 0xf6, 0xec, 0xed, 0xd4, 0x19, 0xdb, 0x06, 0xc1])"
  by code_simp

end
